theory Spec2Isabelle
  imports Main "HOL-Library.Word"
begin

unbundle bit_operations_syntax

section \<open>Data model of message/header.go\<close>

type_synonym byte = "8 word"
type_synonym int32 = "32 word"
type_synonym uint64 = "64 word"

text \<open>
  A Go slice is a window on a backing array: it has a length and a capacity. A slice is
  modelled by its contents: the bytes inside its length (\<open>elems\<close>) and the bytes of the
  backing array between its length and its capacity (\<open>spare\<close>). The nil slice is
  \<open>Slice [] []\<close>. Every operation that panics in Go (an index or a slice bound out of
  range) returns \<open>None\<close>.

  The slices are values: a write through one slice is not seen through another. The one
  write through a sub-slice that header.go makes within a call, \<open>PutUvarint(dst[total:], _)\<close>
  in encode, is put back into \<open>dst\<close> explicitly. The destination of encode is taken not to
  overlap the buffer a header was decoded from.
\<close>

datatype slice = Slice (elems: "byte list") (spare: "byte list")

definition len :: "slice \<Rightarrow> int" where
  "len s = int (length (elems s))"

definition cap :: "slice \<Rightarrow> int" where
  "cap s = int (length (elems s) + length (spare s))"

text \<open>\<open>make([]byte, n)\<close>: a fresh zeroed slice.\<close>

definition make_bytes :: "nat \<Rightarrow> slice" where
  "make_bytes n = Slice (replicate n 0) []"

text \<open>\<open>s[i]\<close>: panics unless \<open>0 \<le> i < len(s)\<close>.\<close>

definition index :: "slice \<Rightarrow> int \<Rightarrow> byte option" where
  "index s i = (if 0 \<le> i \<and> i < len s then Some (elems s ! nat i) else None)"

text \<open>\<open>s[i] = v\<close>: panics unless \<open>0 \<le> i < len(s)\<close>.\<close>

definition store :: "slice \<Rightarrow> int \<Rightarrow> byte \<Rightarrow> slice option" where
  "store s i v =
     (if 0 \<le> i \<and> i < len s then Some (Slice ((elems s)[nat i := v]) (spare s)) else None)"

text \<open>\<open>s[lo:hi]\<close>: panics unless \<open>0 \<le> lo \<le> hi \<le> cap(s)\<close>; the bound is the capacity.\<close>

definition slice_lh :: "slice \<Rightarrow> int \<Rightarrow> int \<Rightarrow> slice option" where
  "slice_lh s lo hi =
     (if 0 \<le> lo \<and> lo \<le> hi \<and> hi \<le> cap s
      then Some (Slice (take (nat hi - nat lo) (drop (nat lo) (elems s @ spare s)))
                       (drop (nat hi) (elems s @ spare s)))
      else None)"

text \<open>\<open>s[lo:]\<close>: the upper bound defaults to \<open>len(s)\<close>, so it panics unless \<open>0 \<le> lo \<le> len(s)\<close>.\<close>

definition slice_from :: "slice \<Rightarrow> int \<Rightarrow> slice option" where
  "slice_from s lo =
     (if 0 \<le> lo \<and> lo \<le> len s then Some (Slice (drop (nat lo) (elems s)) (spare s)) else None)"

text \<open>
  The header struct. \<open>remLen\<close> is an \<open>int32\<close>; it is read as a signed number with \<open>sint\<close>.
\<close>

record header =
  remLen :: int32
  mTypeFlags :: slice
  packetID :: slice
  dBuf :: slice
  dirty :: bool

text \<open>The zero value \<open>header{}\<close>: a freshly constructed header.\<close>

definition fresh :: header where
  "fresh = \<lparr> remLen = 0, mTypeFlags = Slice [] [], packetID = Slice [] [],
             dBuf = Slice [] [], dirty = False \<rparr>"

text \<open>
  The source returns its errors as formatted messages (\<open>fmt.Errorf\<close>). Each constructor
  stands for one kind of message:
  \<^item> \<open>InvalidPacketType\<close>: "Invalid control packet type" / "Invalid message type %d".
  \<^item> \<open>UnexpectedPacketType\<close>: "Invalid message type %d. Expecting %d." of decode.
  \<^item> \<open>InvalidFlags\<close>: "Invalid message (%d) flags. Expecting %d, got %d".
  \<^item> \<open>InvalidQoS\<close>: "Invalid QoS (%d) for PUBLISH message."
  \<^item> \<open>RemainingLengthOutOfRange\<close>: "Remaining length (%d) out of bound (max %d, min 0)".
  \<^item> \<open>TruncatedMessage\<close>: "Remaining length (%d) is greater than remaining buffer (%d)".
  \<^item> \<open>BufferTooSmall\<close>: "Insufficient buffer size. Expecting %d, got %d."
\<close>

datatype error =
    InvalidPacketType
  | UnexpectedPacketType
  | InvalidFlags
  | InvalidQoS
  | RemainingLengthOutOfRange
  | TruncatedMessage
  | BufferTooSmall

section \<open>Declarations used by header.go and made outside it\<close>

text \<open>
  Modelled from the spec: the type \<open>MessageType\<close> is declared outside header.go. The source
  converts it to and from \<open>byte\<close>; the spec describes a 4-bit value.
\<close>

type_synonym MessageType = byte

text \<open>
  Modelled from the spec: the method \<open>MessageType.Valid\<close> is declared outside header.go.
  The spec: the type "must be one of the defined values; 0 and 15 are reserved/invalid",
  the defined values being 1 to 14.
\<close>

definition Valid :: "MessageType \<Rightarrow> bool" where
  "Valid t \<longleftrightarrow> 1 \<le> t \<and> t \<le> 14"

text \<open>
  Modelled from the spec: the function \<open>ValidQos\<close> is declared outside header.go.
  The spec: "3 is reserved/invalid; only 0, 1, 2 are legal".
\<close>

definition ValidQos :: "byte \<Rightarrow> bool" where
  "ValidQos qos \<longleftrightarrow> qos = 0 \<or> qos = 1 \<or> qos = 2"

text \<open>
  Modelled from the spec: the constant \<open>maxRemainingLength\<close> is declared outside header.go.
  The spec and the comment of \<open>SetRemainingLength\<close> give 268435455.
\<close>

definition maxRemainingLength :: int where
  "maxRemainingLength = 268435455"

text \<open>
  Modelled from the spec: the constant \<open>PUBLISH\<close> and the table
  \<open>MessageType.DefaultFlags\<close> are declared outside header.go. The spec names the protocol
  as modelled on MQTT and gives the default flags \<open>0b0010\<close> of SUBSCRIBE, but lists no
  other value. The functions below therefore take both as the parameters \<open>PUBLISH\<close> and
  \<open>DefaultFlags\<close>, and the general results hold for every choice of them. Where a concrete
  header is evaluated, the values of MQTT 3.1.1 are used: PUBLISH is packet type 3, and the
  fixed flags are 2 for PUBREL (6), SUBSCRIBE (8) and UNSUBSCRIBE (10) and 0 for the others.
\<close>

definition mqtt_PUBLISH :: MessageType where
  "mqtt_PUBLISH = 3"

definition mqtt_DefaultFlags :: "MessageType \<Rightarrow> byte" where
  "mqtt_DefaultFlags t = (if t = 6 \<or> t = 8 \<or> t = 10 then 2 else 0)"

section \<open>encoding/binary of the Go standard library\<close>

text \<open>
  \<open>binary.PutUvarint(buf, x)\<close>:
  \<^verbatim>\<open>
  i := 0
  for x >= 0x80 { buf[i] = byte(x) | 0x80; x >>= 7; i++ }
  buf[i] = byte(x)
  return i + 1
  \<close>
  The loop works on the elements of \<open>buf\<close>; a write past its length panics.
\<close>

function PutUvarint_loop :: "byte list \<Rightarrow> nat \<Rightarrow> uint64 \<Rightarrow> (byte list \<times> int) option" where
  "PutUvarint_loop buf i x =
     (if 0x80 \<le> x
      then (if i < length buf
            then PutUvarint_loop (buf[i := ucast x OR 0x80]) (i + 1) (drop_bit 7 x)
            else None)
      else (if i < length buf then Some (buf[i := ucast x], int i + 1) else None))"
  by pat_completeness auto
termination
proof (relation "measure (\<lambda>(buf, i, x). unat x)")
  show "wf (measure (\<lambda>(buf, i, x). unat x))" by simp
next
  fix buf :: "byte list" and i :: nat and x :: uint64
  assume "0x80 \<le> x"
  then have "128 \<le> unat x" by (simp add: word_le_nat_alt)
  moreover have "unat (drop_bit 7 x) = unat x div 2 ^ 7"
    by (simp add: drop_bit_eq_div unat_div)
  ultimately have "unat (drop_bit 7 x) < unat x" by simp
  then show "((buf[i := ucast x OR 0x80], i + 1, drop_bit 7 x), (buf, i, x))
             \<in> measure (\<lambda>(buf, i, x). unat x)" by simp
qed

definition PutUvarint :: "slice \<Rightarrow> uint64 \<Rightarrow> (slice \<times> int) option" where
  "PutUvarint buf x =
     (case PutUvarint_loop (elems buf) 0 x of
        None \<Rightarrow> None
      | Some (bs, n) \<Rightarrow> Some (Slice bs (spare buf), n))"

text \<open>
  \<open>binary.Uvarint(buf)\<close>:
  \<^verbatim>\<open>
  var x uint64; var s uint
  for i, b := range buf {
    if i == MaxVarintLen64 { return 0, -(i + 1) }
    if b < 0x80 {
      if i == MaxVarintLen64-1 && b > 1 { return 0, -(i + 1) }
      return x | uint64(b)<<s, i + 1
    }
    x |= uint64(b&0x7f) << s
    s += 7
  }
  return 0, 0
  \<close>
  with \<open>MaxVarintLen64 = 10\<close>. The count is 0 when the buffer ends inside the number and
  negative when the number does not fit 64 bits. Earlier Go releases lack the first test
  and differ only on a buffer with more than ten bytes before the last byte of the number;
  none of the results below depends on such a buffer.
\<close>

fun Uvarint_loop :: "byte list \<Rightarrow> nat \<Rightarrow> uint64 \<Rightarrow> nat \<Rightarrow> uint64 \<times> int" where
  "Uvarint_loop [] i x s = (0, 0)"
| "Uvarint_loop (b # bs) i x s =
     (if i = 10 then (0, - (int i + 1))
      else if b < 0x80
      then (if i = 9 \<and> 1 < b then (0, - (int i + 1))
            else (x OR push_bit s (ucast b), int i + 1))
      else Uvarint_loop bs (i + 1) (x OR push_bit s (ucast (b AND 0x7f))) (s + 7))"

definition Uvarint :: "slice \<Rightarrow> uint64 \<times> int" where
  "Uvarint buf = Uvarint_loop (elems buf) 0 0 0"

section \<open>The header's operations\<close>

text \<open>
  \<open>Type()\<close> allocates a zero byte and marks the header dirty when no single byte is
  stored; it returns the high nibble of the stored byte together with the header as it
  leaves it. After the guard the slice has length 1, so the read cannot panic.
\<close>

definition Type :: "header \<Rightarrow> MessageType \<times> header" where
  "Type h =
     (let h = (if len (mTypeFlags h) \<noteq> 1 then h\<lparr>mTypeFlags := make_bytes 1, dirty := True\<rparr> else h)
      in (drop_bit 4 (elems (mTypeFlags h) ! 0), h))"

text \<open>
  \<open>SetType\<close> writes the byte in place. On a header whose byte still points into a decoded
  buffer the source's write is also seen through that buffer; the model, whose slices are
  values, changes the header's byte only. Below, \<open>SetType\<close> is applied to fresh headers,
  where it allocates the byte and the two agree.
\<close>

definition SetType :: "(MessageType \<Rightarrow> byte) \<Rightarrow> header \<Rightarrow> MessageType \<Rightarrow> header \<times> error option" where
  "SetType DefaultFlags h mtype =
     (if \<not> Valid mtype then (h, Some InvalidPacketType)
      else
        let h = (if len (mTypeFlags h) \<noteq> 1 then h\<lparr>mTypeFlags := make_bytes 1, dirty := True\<rparr> else h)
        in (h\<lparr>mTypeFlags :=
                Slice ((elems (mTypeFlags h))[0 := push_bit 4 mtype OR (DefaultFlags mtype AND 0xf)])
                      (spare (mTypeFlags h))\<rparr>,
            None))"

text \<open>\<open>Flags()\<close> reads \<open>h.mTypeFlags[0]\<close> with no guard: it panics when no byte is stored.\<close>

definition Flags :: "header \<Rightarrow> byte option" where
  "Flags h = (case index (mTypeFlags h) 0 of None \<Rightarrow> None | Some b \<Rightarrow> Some (b AND 0x0f))"

definition RemainingLength :: "header \<Rightarrow> int32" where
  "RemainingLength h = remLen h"

definition SetRemainingLength :: "header \<Rightarrow> int32 \<Rightarrow> header \<times> error option" where
  "SetRemainingLength h remlen =
     (if maxRemainingLength < sint remlen \<or> sint remlen < 0
      then (h, Some RemainingLengthOutOfRange)
      else (h\<lparr>remLen := remlen, dirty := True\<rparr>, None))"

definition msgLen :: "header \<Rightarrow> int" where
  "msgLen h =
     (let total = 1 in
      if sint (remLen h) \<le> 127 then total + 1
      else if sint (remLen h) \<le> 16383 then total + 2
      else if sint (remLen h) \<le> 2097151 then total + 3
      else total + 4)"

text \<open>
  \<open>PutUvarint(dst[total:], x)\<close> writes through the sub-slice into \<open>dst\<close>: \<open>overlay\<close> puts
  the bytes of the sub-slice back at their place.
\<close>

definition overlay :: "slice \<Rightarrow> int \<Rightarrow> slice \<Rightarrow> slice" where
  "overlay dst lo sub = Slice (take (nat lo) (elems dst) @ elems sub) (spare dst)"

text \<open>
  \<open>encode(dst)\<close> returns the header as it leaves it, the destination as written, the
  count and the error; \<open>None\<close> is a panic.
\<close>

definition encode :: "header \<Rightarrow> slice \<Rightarrow> (header \<times> slice \<times> int \<times> error option) option" where
  "encode h dst =
     (let ml = msgLen h in
      if len dst < ml then Some (h, dst, 0, Some BufferTooSmall)
      else
        let total = 0 in
        if maxRemainingLength < sint (remLen h) \<or> sint (remLen h) < 0
        then Some (h, dst, total, Some RemainingLengthOutOfRange)
        else
          let (t, h) = Type h in
          if \<not> Valid t then Some (h, dst, total, Some InvalidPacketType)
          else
            (case index (mTypeFlags h) 0 of None \<Rightarrow> None | Some b \<Rightarrow>
            (case store dst total b of None \<Rightarrow> None | Some dst \<Rightarrow>
            (let total = total + 1 in
            (case slice_from dst total of None \<Rightarrow> None | Some sub \<Rightarrow>
            (case PutUvarint sub (scast (remLen h)) of None \<Rightarrow> None | Some (sub, n) \<Rightarrow>
            Some (h, overlay dst total sub, total + n, None)))))))"

text \<open>
  The two conditions of decode on the flags, with Go's left-to-right, short-circuit
  evaluation: \<open>h.Type() != PUBLISH && h.Flags() != h.Type().DefaultFlags()\<close> and
  \<open>h.Type() == PUBLISH && !ValidQos((h.Flags()>>1)&0x3)\<close>.
\<close>

definition flagsNotDefault ::
  "MessageType \<Rightarrow> (MessageType \<Rightarrow> byte) \<Rightarrow> header \<Rightarrow> (bool \<times> header) option" where
  "flagsNotDefault PUBLISH DefaultFlags h =
     (let (t, h) = Type h in
      if t \<noteq> PUBLISH
      then (case Flags h of None \<Rightarrow> None
            | Some f \<Rightarrow> (let (t, h) = Type h in Some (f \<noteq> DefaultFlags t, h)))
      else Some (False, h))"

definition qosNotValid :: "MessageType \<Rightarrow> header \<Rightarrow> (bool \<times> header) option" where
  "qosNotValid PUBLISH h =
     (let (t, h) = Type h in
      if t = PUBLISH
      then (case Flags h of None \<Rightarrow> None
            | Some f \<Rightarrow> Some (\<not> ValidQos (drop_bit 1 f AND 0x3), h))
      else Some (False, h))"

text \<open>
  \<open>decode(src)\<close> returns the header as it leaves it, the count and the error; \<open>None\<close> is a
  panic. The decoded value is a \<open>uint64\<close>, so the source's test \<open>remLen < 0\<close> is the
  unsigned comparison of a word with 0.
\<close>

definition decode ::
  "MessageType \<Rightarrow> (MessageType \<Rightarrow> byte) \<Rightarrow> header \<Rightarrow> slice \<Rightarrow> (header \<times> int \<times> error option) option" where
  "decode PUBLISH DefaultFlags h src =
     (let total = 0;
          h = h\<lparr>dBuf := src\<rparr>;
          (mType, h) = Type h
      in (case slice_lh src total (total + 1) of None \<Rightarrow> None | Some s \<Rightarrow>
      (let h = h\<lparr>mTypeFlags := s\<rparr>;
           (t, h) = Type h
      in if \<not> Valid t then Some (h, total, Some InvalidPacketType)
      else
        let (t, h) = Type h
        in if mType \<noteq> t then Some (h, total, Some UnexpectedPacketType)
        else
          (case flagsNotDefault PUBLISH DefaultFlags h of None \<Rightarrow> None | Some (c, h) \<Rightarrow>
          (if c then Some (h, total, Some InvalidFlags)
          else
            (case qosNotValid PUBLISH h of None \<Rightarrow> None | Some (c, h) \<Rightarrow>
            (if c then Some (h, total, Some InvalidQoS)
            else
              let total = total + 1 in
              (case slice_from src total of None \<Rightarrow> None | Some rest \<Rightarrow>
              (let (remLen64, m) = Uvarint rest;
                   total = total + m;
                   h = h\<lparr>remLen := ucast remLen64\<rparr>
              in if maxRemainingLength < sint (remLen h) \<or> remLen64 < 0
                 then Some (h, total, Some RemainingLengthOutOfRange)
                 else
                   (case slice_from src total of None \<Rightarrow> None | Some rest \<Rightarrow>
                   (if len rest < sint (remLen h) then Some (h, total, Some TruncatedMessage)
                   else Some (h, total, None))))))))))))"

text \<open>
  The bytes \<open>PutUvarint\<close> writes for \<open>x\<close>, as a list: the base-128 groups of \<open>x\<close>, least
  significant first, each but the last with its high bit set.
\<close>

function uvarint_bytes :: "uint64 \<Rightarrow> byte list" where
  "uvarint_bytes x =
     (if 0x80 \<le> x then (ucast x OR 0x80) # uvarint_bytes (drop_bit 7 x) else [ucast x])"
  by pat_completeness auto
termination
proof (relation "measure unat")
  show "wf (measure (unat :: uint64 \<Rightarrow> nat))" by simp
next
  fix x :: uint64
  assume "0x80 \<le> x"
  then have "128 \<le> unat x" by (simp add: word_le_nat_alt)
  moreover have "unat (drop_bit 7 x) = unat x div 2 ^ 7"
    by (simp add: drop_bit_eq_div unat_div)
  ultimately have "unat (drop_bit 7 x) < unat x" by simp
  then show "(drop_bit 7 x, x) \<in> measure unat" by simp
qed

section \<open>Slices and the type/flags byte\<close>

lemma Type_stored:
  "len (mTypeFlags h) = 1 \<Longrightarrow> Type h = (drop_bit 4 (elems (mTypeFlags h) ! 0), h)"
  by (simp add: Type_def)

lemma Type_unstored:
  "len (mTypeFlags h) \<noteq> 1 \<Longrightarrow> Type h = (0, h\<lparr>mTypeFlags := make_bytes 1, dirty := True\<rparr>)"
  by (simp add: Type_def make_bytes_def)

lemma not_Valid_0: "\<not> Valid 0"
  by (simp add: Valid_def)

lemma Valid_Type_stored: "Valid (fst (Type h)) \<Longrightarrow> len (mTypeFlags h) = 1"
  by (cases "len (mTypeFlags h) = 1") (simp_all add: Type_unstored not_Valid_0)

lemma Type_one: "Type (h\<lparr>mTypeFlags := Slice [b] sp\<rparr>) = (drop_bit 4 b, h\<lparr>mTypeFlags := Slice [b] sp\<rparr>)"
  by (simp add: Type_stored len_def)

lemma Flags_one: "Flags (h\<lparr>mTypeFlags := Slice [b] sp\<rparr>) = Some (b AND 0xf)"
  by (simp add: Flags_def index_def len_def)

lemma Uvarint_loop_count_le:
  "snd (Uvarint_loop bs i x s) \<le> int i + int (length bs)"
proof (induction bs arbitrary: i x s)
  case Nil
  show ?case by simp
next
  case (Cons b bs)
  have "snd (Uvarint_loop bs (i + 1) (x OR push_bit s (ucast (b AND 0x7f))) (s + 7))
          \<le> int (i + 1) + int (length bs)"
    by (rule Cons.IH)
  then show ?case by simp
qed

lemma slice_lh_first: "slice_lh (Slice (b # bs) sp) 0 1 = Some (Slice [b] (bs @ sp))"
  by (simp add: slice_lh_def cap_def)

lemma Type_dBuf: "Type (h\<lparr>dBuf := s\<rparr>) = (fst (Type h), (snd (Type h))\<lparr>dBuf := s\<rparr>)"
  by (simp add: Type_def Let_def)

lemma case_if_None:
  "(case (if c then None else Some x) of None \<Rightarrow> None | Some y \<Rightarrow> f y) = (if c then None else f x)"
  by simp

lemma flagsNotDefault_one:
  "flagsNotDefault P D (h\<lparr>mTypeFlags := Slice [b] sp\<rparr>) =
     Some (drop_bit 4 b \<noteq> P \<and> b AND 0xf \<noteq> D (drop_bit 4 b), h\<lparr>mTypeFlags := Slice [b] sp\<rparr>)"
  by (simp add: flagsNotDefault_def Type_one Flags_one)

lemma qosNotValid_one:
  "qosNotValid P (h\<lparr>mTypeFlags := Slice [b] sp\<rparr>) =
     Some (drop_bit 4 b = P \<and> \<not> ValidQos (drop_bit 1 (b AND 0xf) AND 0x3),
           h\<lparr>mTypeFlags := Slice [b] sp\<rparr>)"
  by (simp add: qosNotValid_def Type_one Flags_one)

lemma decode_cons:
  "decode P D h (Slice (b # bs) sp) =
     (let h1 = (snd (Type h))\<lparr>dBuf := Slice (b # bs) sp, mTypeFlags := Slice [b] (bs @ sp)\<rparr>;
          t = drop_bit 4 b; f = b AND 0xf;
          v = fst (Uvarint_loop bs 0 0 0); m = snd (Uvarint_loop bs 0 0 0);
          h2 = h1\<lparr>remLen := ucast v\<rparr>
      in if \<not> Valid t then Some (h1, 0, Some InvalidPacketType)
         else if fst (Type h) \<noteq> t then Some (h1, 0, Some UnexpectedPacketType)
         else if t \<noteq> P \<and> f \<noteq> D t then Some (h1, 0, Some InvalidFlags)
         else if t = P \<and> \<not> ValidQos (drop_bit 1 f AND 0x3) then Some (h1, 0, Some InvalidQoS)
         else if maxRemainingLength < sint (ucast v :: int32)
              then Some (h2, 1 + m, Some RemainingLengthOutOfRange)
         else if 1 + m < 0 then None
         else if int (length bs) - m < sint (ucast v :: int32)
              then Some (h2, 1 + m, Some TruncatedMessage)
         else Some (h2, 1 + m, None))"
proof -
  have m: "snd (Uvarint_loop bs 0 0 0) \<le> int (length bs)"
    using Uvarint_loop_count_le [of bs 0 0 0] by simp
  have tail: "slice_from (Slice (b # bs) sp) (1 + snd (Uvarint_loop bs 0 0 0)) =
     (if 1 + snd (Uvarint_loop bs 0 0 0) < 0 then None
      else Some (Slice (drop (nat (1 + snd (Uvarint_loop bs 0 0 0))) (b # bs)) sp))"
    using m by (simp add: slice_from_def len_def)
  have l: "\<not> 1 + snd (Uvarint_loop bs 0 0 0) < 0 \<Longrightarrow>
      len (Slice (drop (nat (1 + snd (Uvarint_loop bs 0 0 0))) (b # bs)) sp)
      = int (length bs) - snd (Uvarint_loop bs 0 0 0)"
    using m by (simp add: len_def)
  have first: "slice_from (Slice (b # bs) sp) 1 = Some (Slice bs sp)"
    by (simp add: slice_from_def len_def)
  show ?thesis
    unfolding decode_def
    apply (simp only: Let_def slice_lh_first Type_one flagsNotDefault_one qosNotValid_one Type_dBuf
                  case_prod_beta prod.case
                  fst_conv snd_conv option.case if_True if_False add_0 Uvarint_def slice.sel
                  first tail case_if_None)
    apply (simp add: l split del: if_split cong: if_cong)
    done
qed

section \<open>Varints\<close>

declare uvarint_bytes.simps [simp del]
declare PutUvarint_loop.simps [simp del]

lemma bit_128_int: "bit (128 :: int) n \<longleftrightarrow> n = 7"
proof -
  have "(128 :: int) = 2 ^ 7" by simp
  then show ?thesis by (simp only: bit_exp_iff) simp
qed

lemma bit_127_int: "bit (127 :: int) n \<longleftrightarrow> n < 7"
proof -
  have "(127 :: int) = mask 7" by (simp add: mask_eq_exp_minus_1)
  then show ?thesis by (simp only: bit_mask_iff) simp
qed

lemma low7_of_continuation_byte: "(ucast ((ucast (x::uint64) OR 0x80 :: byte) AND 0x7f) :: uint64) = take_bit 7 x"
  by (rule bit_word_eqI) (auto simp: bit_simps bit_128_int bit_127_int)

lemma take7_or_drop7: "take_bit 7 (x::uint64) OR push_bit 7 (drop_bit 7 x) = x"
proof (rule bit_word_eqI)
  fix n
  assume "n < LENGTH(64)"
  then show "bit (take_bit 7 x OR push_bit 7 (drop_bit 7 x)) n = bit x n"
    by (cases "n < 7") (simp_all add: bit_simps not_less)
qed

lemma ucast_ucast_small: "(x::uint64) < 0x80 \<Longrightarrow> (ucast (ucast x :: byte) :: uint64) = x"
proof -
  assume "x < 0x80"
  then have "unat x < 2 ^ 8" by (simp add: word_less_nat_alt)
  then have "take_bit 8 (unat x) = unat x" by (simp only: take_bit_nat_eq_self_iff)
  then have "unat (ucast (ucast x :: byte) :: uint64) = unat x"
    by (simp add: unsigned_ucast_eq unsigned_take_bit_eq)
  then show ?thesis by (simp only: word_unat_eq_iff)
qed

lemma continuation_byte_not_small: "\<not> (ucast (x::uint64) OR 0x80 :: byte) < 0x80"
  using le_word_or2 [of "0x80 :: byte" "ucast x"] by (simp add: or.commute not_less)

lemma ucast_small: "(x::uint64) < 0x80 \<Longrightarrow> (ucast x :: byte) < 0x80"
proof -
  assume a: "x < 0x80"
  then have "unat x < 2 ^ 8" by (simp add: word_less_nat_alt)
  then have "take_bit 8 (unat x) = unat x" by (simp only: take_bit_nat_eq_self_iff)
  then have "unat (ucast x :: byte) = unat x"
    by (simp add: unsigned_ucast_eq)
  then show ?thesis using a by (simp add: word_less_nat_alt)
qed

lemma uvarint_bytes_big:
  "0x80 \<le> x \<Longrightarrow> uvarint_bytes x = (ucast x OR 0x80) # uvarint_bytes (drop_bit 7 x)"
  by (subst uvarint_bytes.simps) simp

lemma uvarint_bytes_small: "x < 0x80 \<Longrightarrow> uvarint_bytes x = [ucast x]"
  by (subst uvarint_bytes.simps) (simp add: not_le [symmetric])

lemma Uvarint_loop_bytes:
  "i + length (uvarint_bytes x) \<le> 9 \<Longrightarrow>
   Uvarint_loop (uvarint_bytes x @ rest) i acc s
     = (acc OR push_bit s x, int (i + length (uvarint_bytes x)))"
proof (induction x arbitrary: i acc s rule: uvarint_bytes.induct)
  case (1 x)
  show ?case
  proof (cases "0x80 \<le> x")
    case True
    have len: "Suc i + length (uvarint_bytes (drop_bit 7 x)) \<le> 9"
      using "1.prems" by (simp add: uvarint_bytes_big [OF True])
    have i: "i \<noteq> 10" using len by simp
    have bits: "push_bit s (take_bit 7 x) OR push_bit (s + 7) (drop_bit 7 x) = push_bit s x"
    proof -
      have "push_bit s (take_bit 7 x) OR push_bit (s + 7) (drop_bit 7 x)
              = push_bit s (take_bit 7 x OR push_bit 7 (drop_bit 7 x))"
        by (simp add: push_bit_or push_bit_add add.commute)
      then show ?thesis by (simp only: take7_or_drop7)
    qed
    show ?thesis
      using "1.IH" [OF True len, of "acc OR push_bit s (take_bit 7 x)" "s + 7"] i
      by (simp add: uvarint_bytes_big [OF True] continuation_byte_not_small low7_of_continuation_byte or.assoc bits)
  next
    case False
    then have small: "x < 0x80" by simp
    have i: "i \<noteq> 10" "i \<noteq> 9"
      using "1.prems" by (simp_all add: uvarint_bytes_small [OF small])
    show ?thesis
      using i by (simp add: uvarint_bytes_small [OF small] ucast_small [OF small] ucast_ucast_small [OF small])
  qed
qed

lemma uvarint_bytes_length_le:
  "0 < k \<Longrightarrow> unat x < 2 ^ (7 * k) \<Longrightarrow> length (uvarint_bytes x) \<le> k"
proof (induction k arbitrary: x)
  case 0
  then show ?case by simp
next
  case (Suc k)
  show ?case
  proof (cases "0x80 \<le> x")
    case True
    then have big: "128 \<le> unat x" by (simp add: word_le_nat_alt)
    have d: "unat (drop_bit 7 x) = unat x div 2 ^ 7"
      by (simp add: drop_bit_eq_div unat_div)
    have k: "0 < k"
    proof (rule ccontr)
      assume "\<not> 0 < k"
      then have "k = 0" by simp
      with Suc.prems(2) big show False by simp
    qed
    have "(2::nat) ^ (7 * Suc k) = 2 ^ 7 * 2 ^ (7 * k)"
      by (simp only: mult_Suc_right power_add)
    then have "unat x < 2 ^ 7 * 2 ^ (7 * k)"
      using Suc.prems(2) by simp
    then have "unat x div 2 ^ 7 < 2 ^ (7 * k)"
      by (simp add: less_mult_imp_div_less mult.commute)
    then have "length (uvarint_bytes (drop_bit 7 x)) \<le> k"
      using Suc.IH [OF k] d by simp
    then show ?thesis by (simp add: uvarint_bytes_big [OF True])
  next
    case False
    then have "x < 0x80" by simp
    then show ?thesis by (simp add: uvarint_bytes_small)
  qed
qed

lemma uvarint_bytes_length_gt:
  "2 ^ (7 * k) \<le> unat x \<Longrightarrow> k < length (uvarint_bytes x)"
proof (induction k arbitrary: x)
  case 0
  show ?case by (subst uvarint_bytes.simps) simp
next
  case (Suc k)
  have "(2::nat) ^ 7 \<le> 2 ^ (7 * Suc k)" by (rule power_increasing) simp_all
  then have big: "128 \<le> unat x" using Suc.prems by simp
  then have True: "0x80 \<le> x" by (simp add: word_le_nat_alt)
  have d: "unat (drop_bit 7 x) = unat x div 2 ^ 7"
    by (simp add: drop_bit_eq_div unat_div)
  have "(2::nat) ^ (7 * Suc k) = 2 ^ (7 * k) * 2 ^ 7"
    by (simp only: mult_Suc_right power_add mult.commute [of "2 ^ 7"])
  then have "2 ^ (7 * k) * 2 ^ 7 \<le> unat x"
    using Suc.prems by simp
  then have "2 ^ (7 * k) \<le> unat x div 2 ^ 7"
    by (simp add: less_eq_div_iff_mult_less_eq)
  then have "k < length (uvarint_bytes (drop_bit 7 x))"
    using Suc.IH d by simp
  then show ?case by (simp add: uvarint_bytes_big [OF True])
qed

lemma uvarint_bytes_nonempty: "0 < length (uvarint_bytes x)"
  by (subst uvarint_bytes.simps) simp

lemma PutUvarint_loop_eq:
  "PutUvarint_loop buf i x =
     (if i + length (uvarint_bytes x) \<le> length buf
      then Some (take i buf @ uvarint_bytes x @ drop (i + length (uvarint_bytes x)) buf,
                 int (i + length (uvarint_bytes x)))
      else None)"
proof (induction buf i x rule: PutUvarint_loop.induct)
  case (1 buf i x)
  show ?case
  proof (cases "0x80 \<le> x")
    case True
    note big = True
    show ?thesis
    proof (cases "i < length buf")
      case True
      have ub: "uvarint_bytes x = (ucast x OR 0x80) # uvarint_bytes (drop_bit 7 x)"
        using big by (subst uvarint_bytes.simps) simp
      have upd: "take (Suc i) (buf[i := v]) = take i buf @ [v]" for v
        using True by (simp add: take_Suc_conv_app_nth)
      show ?thesis
        using big True 1(1) [OF big True]
        by (subst PutUvarint_loop.simps) (simp add: ub upd)
    next
      case False
      have "\<not> i + length (uvarint_bytes x) \<le> length buf"
        using False uvarint_bytes_nonempty [of x] by linarith
      then show ?thesis
        using big False by (subst PutUvarint_loop.simps) simp
    qed
  next
    case False
    have ub: "uvarint_bytes x = [ucast x]"
      using False by (subst uvarint_bytes.simps) simp
    show ?thesis
      using False
      by (subst PutUvarint_loop.simps) (auto simp: ub upd_conv_take_nth_drop)
  qed
qed

section \<open>decode on short buffers\<close>

lemma decode_no_capacity: "decode P D h (Slice [] []) = None"
  by (simp add: decode_def slice_lh_def cap_def Type_dBuf case_prod_beta)

lemma decode_empty:
  "decode P D h (Slice [] (c # cs)) =
     (let h1 = (snd (Type h))\<lparr>dBuf := Slice [] (c # cs), mTypeFlags := Slice [c] cs\<rparr>;
          t = drop_bit 4 c; f = c AND 0xf
      in if \<not> Valid t then Some (h1, 0, Some InvalidPacketType)
         else if fst (Type h) \<noteq> t then Some (h1, 0, Some UnexpectedPacketType)
         else if t \<noteq> P \<and> f \<noteq> D t then Some (h1, 0, Some InvalidFlags)
         else if t = P \<and> \<not> ValidQos (drop_bit 1 f AND 0x3) then Some (h1, 0, Some InvalidQoS)
         else None)"
proof -
  have first: "slice_lh (Slice [] (c # cs)) 0 1 = Some (Slice [c] cs)"
    by (simp add: slice_lh_def cap_def)
  have rest: "slice_from (Slice [] (c # cs)) 1 = None"
    by (simp add: slice_from_def len_def)
  show ?thesis
    unfolding decode_def
    by (simp only: Let_def first Type_one flagsNotDefault_one qosNotValid_one Type_dBuf
                  case_prod_beta prod.case
                  fst_conv snd_conv option.case if_True if_False add_0 rest)
qed

lemma decode_success_nonempty:
  assumes "decode P D h src = Some (h', n, None)"
  obtains b bs where "elems src = b # bs"
proof (cases src)
  case (Slice es sp)
  show ?thesis
  proof (cases es)
    case Nil
    have "decode P D h (Slice [] sp) \<noteq> Some (h', n, None)"
      by (cases sp) (auto simp: decode_no_capacity decode_empty Let_def)
    then show ?thesis using assms Slice Nil by simp
  next
    case (Cons b bs)
    then show ?thesis using that Slice by simp
  qed
qed

lemma Type_snd_valid: "Valid (fst (Type h)) \<Longrightarrow> snd (Type h) = h"
  using Type_stored [OF Valid_Type_stored, of h] by simp

section \<open>encode on a header with a stored type\<close>

lemma ucast_scast_remLen: "(ucast (scast (r :: int32) :: uint64) :: int32) = r"
  by (rule bit_word_eqI) (auto simp: bit_simps)

lemma unat_scast_nonneg:
  assumes "0 \<le> sint (r :: int32)"
  shows "unat (scast r :: uint64) = nat (sint r)"
proof -
  have "sint r < 2 ^ 31" using sint_lt [of r] by simp
  then have "sint r < 2 ^ 64" by simp
  then have "take_bit LENGTH(64) (sint r) = sint r"
    using assms by (simp add: take_bit_int_eq_self)
  moreover have "uint (scast r :: uint64) = take_bit LENGTH(64) (sint r)"
    by (simp only: scast_eq uint_word_of_int_eq)
  ultimately have "uint (scast r :: uint64) = sint r" by (simp only:)
  then show ?thesis by (simp only: unat_eq_nat_uint)
qed

lemma msgLen_length:
  assumes "0 \<le> sint (remLen h)" and "sint (remLen h) \<le> 268435455"
  shows "msgLen h = 1 + int (length (uvarint_bytes (scast (remLen h))))"
proof -
  let ?x = "scast (remLen h) :: uint64"
  have u: "unat ?x = nat (sint (remLen h))"
    using assms(1) by (rule unat_scast_nonneg)
  have le: "unat ?x < 2 ^ (7 * k) \<Longrightarrow> 0 < k \<Longrightarrow> length (uvarint_bytes ?x) \<le> k" for k
    by (rule uvarint_bytes_length_le)
  have gt: "2 ^ (7 * k) \<le> unat ?x \<Longrightarrow> k < length (uvarint_bytes ?x)" for k
    by (rule uvarint_bytes_length_gt)
  consider "sint (remLen h) \<le> 127"
    | "127 < sint (remLen h)" "sint (remLen h) \<le> 16383"
    | "16383 < sint (remLen h)" "sint (remLen h) \<le> 2097151"
    | "2097151 < sint (remLen h)"
    by linarith
  then show ?thesis
  proof cases
    case 1
    then have "unat ?x < 2 ^ (7 * 1)" using u assms(1) by simp
    then have "length (uvarint_bytes ?x) \<le> 1" by (rule le) simp
    then have "length (uvarint_bytes ?x) = 1"
      using uvarint_bytes_nonempty [of ?x] by linarith
    then show ?thesis using 1 by (simp add: msgLen_def)
  next
    case 2
    then have "unat ?x < 2 ^ (7 * 2)" "2 ^ (7 * 1) \<le> unat ?x" using u by simp_all
    then have "length (uvarint_bytes ?x) \<le> 2" "1 < length (uvarint_bytes ?x)"
      using le [of 2] gt [of 1] by simp_all
    then show ?thesis using 2 by (simp add: msgLen_def)
  next
    case 3
    then have "unat ?x < 2 ^ (7 * 3)" "2 ^ (7 * 2) \<le> unat ?x" using u by simp_all
    then have "length (uvarint_bytes ?x) \<le> 3" "2 < length (uvarint_bytes ?x)"
      using le [of 3] gt [of 2] by simp_all
    then show ?thesis using 3 by (simp add: msgLen_def)
  next
    case 4
    then have "unat ?x < 2 ^ (7 * 4)" "2 ^ (7 * 3) \<le> unat ?x" using u assms(2) by simp_all
    then have "length (uvarint_bytes ?x) \<le> 4" "3 < length (uvarint_bytes ?x)"
      using le [of 4] gt [of 3] by simp_all
    then show ?thesis using 4 by (simp add: msgLen_def)
  qed
qed

lemma PutUvarint_eq:
  "PutUvarint (Slice es sp) x =
     (if length (uvarint_bytes x) \<le> length es
      then Some (Slice (uvarint_bytes x @ drop (length (uvarint_bytes x)) es) sp,
                 int (length (uvarint_bytes x)))
      else None)"
  by (simp add: PutUvarint_def PutUvarint_loop_eq)

lemma encode_stored:
  assumes "mTypeFlags h = Slice [b] fsp" and "Valid (drop_bit 4 b)"
    and "0 \<le> sint (remLen h)" and "sint (remLen h) \<le> 268435455"
    and "msgLen h \<le> len dst"
  shows "encode h dst =
           Some (h, Slice (b # uvarint_bytes (scast (remLen h)) @ drop (nat (msgLen h)) (elems dst))
                          (spare dst),
                 msgLen h, None)"
proof -
  let ?bytes = "uvarint_bytes (scast (remLen h))"
  have ml: "msgLen h = 1 + int (length ?bytes)"
    using assms(3,4) by (rule msgLen_length)
  have t: "Type h = (drop_bit 4 b, h)"
    using assms(1) by (simp add: Type_stored len_def)
  obtain d ds where e: "elems dst = d # ds"
    using assms(5) ml by (cases "elems dst") (simp_all add: len_def)
  have fits: "length ?bytes \<le> length ds"
    using assms(5) ml e by (simp add: len_def)
  have st: "store dst 0 b = Some (Slice (b # ds) (spare dst))"
    using e by (simp add: store_def len_def)
  have sf: "slice_from (Slice (b # ds) (spare dst)) 1 = Some (Slice ds (spare dst))"
    by (simp add: slice_from_def len_def)
  have dr: "drop (nat (msgLen h)) (elems dst) = drop (length ?bytes) ds"
    using ml e by (simp add: nat_add_distrib)
  show ?thesis
    using assms fits
    by (simp add: encode_def Let_def t maxRemainingLength_def index_def len_def st sf
                  PutUvarint_eq overlay_def dr ml [symmetric] add.commute)
qed

lemma Valid_Type_byte:
  assumes "Valid (fst (Type h))"
  obtains b fsp where "mTypeFlags h = Slice [b] fsp" and "fst (Type h) = drop_bit 4 b"
proof -
  have l: "len (mTypeFlags h) = 1" using assms by (rule Valid_Type_stored)
  then obtain b where e: "elems (mTypeFlags h) = [b]"
    by (cases "elems (mTypeFlags h)") (auto simp: len_def)
  then have m: "mTypeFlags h = Slice [b] (spare (mTypeFlags h))"
    by (cases "mTypeFlags h") simp
  have "fst (Type h) = drop_bit 4 b" using l e by (simp add: Type_stored)
  with m show ?thesis by (rule that)
qed


section \<open>Reading back a varint of minimal length\<close>

lemma take_bit_self_iff_unat: "take_bit n (w :: 'a::len word) = w \<longleftrightarrow> unat w < 2 ^ n"
proof -
  have "take_bit n w = w \<longleftrightarrow> uint w < 2 ^ n"
    by (simp only: take_bit_eq_mask mask_eq_iff)
  also have "\<dots> \<longleftrightarrow> unat w < 2 ^ n"
    by (simp only: uint_nat of_nat_less_numeral_power_cancel_iff)
  finally show ?thesis .
qed

lemma bit_imp_less: "unat (w :: 'a::len word) < 2 ^ N \<Longrightarrow> bit w m \<Longrightarrow> m < N"
  by (metis bit_take_bit_iff take_bit_self_iff_unat)

lemma bit_byte_7: "0x80 \<le> (b :: byte) \<Longrightarrow> bit b 7"
proof (rule ccontr)
  assume a: "0x80 \<le> b" and n: "\<not> bit b 7"
  have "take_bit 7 b = b"
  proof (rule bit_word_eqI)
    fix m assume "m < LENGTH(8)"
    then have "m < 7 \<or> m = 7" by auto
    then show "bit (take_bit 7 b) m = bit b m" using n by (auto simp: bit_simps)
  qed
  then have "unat b < 2 ^ 7" by (simp only: take_bit_self_iff_unat)
  then show False using a by (simp add: word_le_nat_alt)
qed

lemma low7_or_high:
  "0x80 \<le> (b :: byte) \<Longrightarrow>
   (ucast ((ucast (b AND 0x7f) :: uint64) OR push_bit 7 w) :: byte) OR 0x80 = b"
proof (rule bit_word_eqI)
  fix m assume b: "0x80 \<le> b" and m: "m < LENGTH(8)"
  then have c: "m < 7 \<or> m = 7" by auto
  have b7: "bit b 7" using b by (rule bit_byte_7)
  show "bit ((ucast ((ucast (b AND 0x7f) :: uint64) OR push_bit 7 w) :: byte) OR 0x80) m = bit b m"
    using c b7 by (auto simp: bit_simps bit_128_int bit_127_int)
qed

lemma drop7_low7_or_high:
  assumes "unat (w :: uint64) < 2 ^ (7 * k)" and "k \<le> 8"
  shows "drop_bit 7 ((ucast ((b :: byte) AND 0x7f) :: uint64) OR push_bit 7 w) = w"
proof (rule bit_word_eqI)
  fix m assume "m < LENGTH(64)"
  have w: "bit w m \<Longrightarrow> m + 7 < 64"
    using bit_imp_less [OF assms(1), of m] assms(2) by simp
  show "bit (drop_bit 7 ((ucast (b AND 0x7f) :: uint64) OR push_bit 7 w)) m = bit w m"
    using w by (auto simp: bit_simps bit_127_int)
qed

lemma low7_or_high_bound:
  assumes "unat (w :: uint64) < 2 ^ (7 * k)"
  shows "unat ((ucast ((b :: byte) AND 0x7f) :: uint64) OR push_bit 7 w) < 2 ^ (7 * Suc k)"
proof -
  let ?x = "(ucast (b AND 0x7f) :: uint64) OR push_bit 7 w"
  have "take_bit (7 * Suc k) ?x = ?x"
  proof (rule bit_word_eqI)
    fix m assume "m < LENGTH(64)"
    have w: "bit w (m - 7) \<Longrightarrow> 7 \<le> m \<Longrightarrow> m < 7 + 7 * k"
      using bit_imp_less [OF assms, of "m - 7"] by simp
    show "bit (take_bit (7 * Suc k) ?x) m = bit ?x m"
      using w by (auto simp: bit_simps bit_127_int)
  qed
  then show ?thesis by (simp only: take_bit_self_iff_unat)
qed

lemma ucast_byte_small:
  assumes "(b :: byte) < 0x80"
  shows "(ucast b :: uint64) < 0x80"
proof -
  have "unat b < 128" using assms by (simp add: word_less_nat_alt)
  then have "unat b < 2 ^ 64" by simp
  then have "take_bit 64 (unat b) = unat b" by (simp only: take_bit_nat_eq_self_iff)
  then have "unat (ucast b :: uint64) = unat b" by (simp add: unsigned_ucast_eq)
  then show ?thesis using \<open>unat b < 128\<close> by (simp add: word_less_nat_alt)
qed

lemma ucast_ucast_byte: "(ucast (ucast (b :: byte) :: uint64) :: byte) = b"
  by (rule bit_word_eqI) (auto simp: bit_simps)

lemma Uvarint_loop_count_cases:
  "snd (Uvarint_loop bs i x s) \<le> 0 \<or> int i + 1 \<le> snd (Uvarint_loop bs i x s)"
proof (induction bs arbitrary: i x s)
  case Nil
  show ?case by simp
next
  case (Cons b bs)
  have "snd (Uvarint_loop bs (i + 1) (x OR push_bit s (ucast (b AND 0x7f))) (s + 7)) \<le> 0
        \<or> int (i + 1) + 1 \<le> snd (Uvarint_loop bs (i + 1) (x OR push_bit s (ucast (b AND 0x7f))) (s + 7))"
    by (rule Cons.IH)
  then show ?case by auto
qed

lemma uvarint_bytes_length_small: "x < 0x80 \<Longrightarrow> length (uvarint_bytes x) = 1"
  by (simp add: uvarint_bytes_small)

lemma Uvarint_loop_canonical:
  assumes "Uvarint_loop bs i acc s = (v, int i + int k)" and "0 < k" and "i + k \<le> 9"
  shows "\<exists>w. v = acc OR push_bit s w \<and> unat w < 2 ^ (7 * k)
             \<and> (k \<le> length (uvarint_bytes w) \<longrightarrow> take k bs = uvarint_bytes w)"
  using assms
proof (induction bs arbitrary: i acc s k)
  case Nil
  then show ?case by simp
next
  case (Cons b bs)
  have i: "i \<noteq> 10" "i \<noteq> 9" using Cons.prems(2,3) by simp_all
  show ?case
  proof (cases "b < 0x80")
    case True
    then have r: "v = acc OR push_bit s (ucast b)" and k: "k = 1"
      using Cons.prems(1) i by simp_all
    have small: "(ucast b :: uint64) < 0x80" using True by (rule ucast_byte_small)
    then have "unat (ucast b :: uint64) < 2 ^ (7 * 1)" by (simp add: word_less_nat_alt)
    moreover have "uvarint_bytes (ucast b) = [b]"
      using small by (simp add: uvarint_bytes_small ucast_ucast_byte)
    ultimately show ?thesis using r k by (intro exI [of _ "ucast b"]) simp
  next
    case False
    then have big: "0x80 \<le> b" by simp
    let ?acc = "acc OR push_bit s (ucast (b AND 0x7f))"
    have rec: "Uvarint_loop bs (i + 1) ?acc (s + 7) = (v, int i + int k)"
      using Cons.prems(1) i False by simp
    have "snd (Uvarint_loop bs (i + 1) ?acc (s + 7)) \<le> 0
          \<or> int (i + 1) + 1 \<le> snd (Uvarint_loop bs (i + 1) ?acc (s + 7))"
      by (rule Uvarint_loop_count_cases)
    then have k2: "2 \<le> k" using rec Cons.prems(2) by simp
    then obtain k' where k': "k = Suc k'" "0 < k'" by (cases k) auto
    have rec': "Uvarint_loop bs (i + 1) ?acc (s + 7) = (v, int (i + 1) + int k')"
      using rec k' by simp
    have "i + 1 + k' \<le> 9" using Cons.prems(3) k' by simp
    from Cons.IH [OF rec' k'(2) this]
    obtain w' where w': "v = ?acc OR push_bit (s + 7) w'" "unat w' < 2 ^ (7 * k')"
      "k' \<le> length (uvarint_bytes w') \<longrightarrow> take k' bs = uvarint_bytes w'"
      by blast
    let ?w = "(ucast (b AND 0x7f) :: uint64) OR push_bit 7 w'"
    have k8: "k' \<le> 8" using Cons.prems(3) k' by simp
    have v: "v = acc OR push_bit s ?w"
      using w'(1) by (simp add: push_bit_or push_bit_add or.assoc add.commute)
    have bound: "unat ?w < 2 ^ (7 * k)"
      using low7_or_high_bound [OF w'(2)] k' by simp
    have canon: "take k (b # bs) = uvarint_bytes ?w" if len: "k \<le> length (uvarint_bytes ?w)"
    proof -
      have "\<not> ?w < 0x80"
        using len k2 uvarint_bytes_length_small [of ?w] by auto
      then have wbig: "0x80 \<le> ?w" by simp
      have d: "drop_bit 7 ?w = w'" using w'(2) k8 by (rule drop7_low7_or_high)
      have hd: "(ucast ?w :: byte) OR 0x80 = b" using big by (rule low7_or_high)
      have ub: "uvarint_bytes ?w = b # uvarint_bytes w'"
        using uvarint_bytes_big [OF wbig] d hd by simp
      then have "k' \<le> length (uvarint_bytes w')" using len k' by simp
      then have "take k' bs = uvarint_bytes w'" using w'(3) by simp
      then show ?thesis using ub k' by simp
    qed
    show ?thesis using v bound canon by blast
  qed
qed

lemma small_value_casts:
  assumes "unat (v :: uint64) < 2 ^ 28"
  shows "(scast (ucast v :: int32) :: uint64) = v" and "sint (ucast v :: int32) = int (unat v)"
proof -
  have b: "bit v m \<Longrightarrow> m < 28" for m using assms by (rule bit_imp_less)
  have n31: "\<not> bit (ucast v :: int32) 31"
    using b [of 31] by (auto simp: bit_simps)
  show s: "(scast (ucast v :: int32) :: uint64) = v"
  proof (rule bit_word_eqI)
    fix m assume "m < LENGTH(64)"
    show "bit (scast (ucast v :: int32) :: uint64) m = bit v m"
      using b [of m] b [of "min 31 m"] by (auto simp: bit_simps min_def split: if_splits)
  qed
  have "0 \<le> sint (ucast v :: int32)"
    using n31 bit_last_iff [of "ucast v :: int32"] by simp
  then have "unat (scast (ucast v :: int32) :: uint64) = nat (sint (ucast v :: int32))"
    by (rule unat_scast_nonneg)
  then show "sint (ucast v :: int32) = int (unat v)"
    using s \<open>0 \<le> sint (ucast v :: int32)\<close> by simp
qed

lemma decode_success_cons:
  assumes "decode P D h (Slice (b # bs) sp) = Some (h', n, None)"
  shows "Valid (drop_bit 4 b)"
    and "fst (Type h) = drop_bit 4 b"
    and "h' = h\<lparr>dBuf := Slice (b # bs) sp, mTypeFlags := Slice [b] (bs @ sp),
                 remLen := ucast (fst (Uvarint_loop bs 0 0 0))\<rparr>"
    and "n = 1 + snd (Uvarint_loop bs 0 0 0)"
proof -
  show v: "Valid (drop_bit 4 b)" and t: "fst (Type h) = drop_bit 4 b"
    and "n = 1 + snd (Uvarint_loop bs 0 0 0)"
    using assms by (auto simp: decode_cons Let_def split: if_splits)
  have "snd (Type h) = h" using v t by (simp add: Type_snd_valid)
  then show "h' = h\<lparr>dBuf := Slice (b # bs) sp, mTypeFlags := Slice [b] (bs @ sp),
                 remLen := ucast (fst (Uvarint_loop bs 0 0 0))\<rparr>"
    using assms by (auto simp: decode_cons Let_def split: if_splits)
qed

section \<open>The claims\<close>

subsection \<open>C1: encode, then decode\<close>

text \<open>
  Claim C1 says that decoding the buffer a header was encoded into yields a header with the
  same type, flags and remaining length. decode compares the type the receiving header had
  before the call with the type in the buffer, and returns before it reads the remaining
  length when they differ. A PUBLISH header with QoS 1 and remaining length 3 encodes to the
  two bytes 32 03; decoding them into a freshly constructed header returns the type-mismatch
  error with nothing consumed, and the header is left with the remaining length 0.
\<close>

theorem roundtrip_fresh_header_counterexample:
  "encode \<lparr>remLen = 3, mTypeFlags = Slice [0x32] [], packetID = Slice [] [],
            dBuf = Slice [] [], dirty = True\<rparr> (Slice [9, 9, 9, 9, 9, 9] [])
     = Some (\<lparr>remLen = 3, mTypeFlags = Slice [0x32] [], packetID = Slice [] [],
              dBuf = Slice [] [], dirty = True\<rparr>, Slice [0x32, 0x03, 9, 9, 9, 9] [], 2, None)
   \<and> decode mqtt_PUBLISH mqtt_DefaultFlags fresh (Slice [0x32, 0x03, 9, 9, 9, 9] [])
     = Some (\<lparr>remLen = 0, mTypeFlags = Slice [0x32] [0x03, 9, 9, 9, 9], packetID = Slice [] [],
              dBuf = Slice [0x32, 0x03, 9, 9, 9, 9] [], dirty = True\<rparr>,
             0, Some UnexpectedPacketType)"
  by code_simp

text \<open>
  Claim C1, amended. Let \<open>h\<close> be a header whose stored type is valid, whose flags are legal
  for the type (the default flags of the type, or for PUBLISH any flags whose bits 2-1 are
  not 3) and whose remaining length is between 0 and 268435455. Encoding \<open>h\<close> into a buffer
  of at least \<open>msgLen h\<close> bytes succeeds and writes \<open>msgLen h\<close> bytes. Decoding the written
  buffer into a header whose type, as read before the call, already equals the type of \<open>h\<close>
  consumes the same count and yields a header with the type, the flags and the remaining
  length of \<open>h\<close>; the decode reports success when the buffer holds at least as many bytes
  after the header as the remaining length announces, and the truncation error otherwise.
\<close>

theorem encode_decode_roundtrip:
  assumes "Valid (fst (Type h))"
    and "Flags h = Some f"
    and "fst (Type h) \<noteq> PUBLISH \<longrightarrow> f = DefaultFlags (fst (Type h))"
    and "fst (Type h) = PUBLISH \<longrightarrow> drop_bit 1 f AND 0x3 \<in> {0, 1, 2}"
    and "0 \<le> sint (remLen h)" and "sint (remLen h) \<le> 268435455"
    and "msgLen h \<le> len dst"
    and "fst (Type g) = fst (Type h)"
  shows "\<exists>dst' h'. encode h dst = Some (h, dst', msgLen h, None)
           \<and> decode PUBLISH DefaultFlags g dst'
               = Some (h', msgLen h,
                       if len dst - msgLen h < sint (remLen h) then Some TruncatedMessage else None)
           \<and> fst (Type h') = fst (Type h) \<and> Flags h' = Flags h
           \<and> RemainingLength h' = RemainingLength h"
proof -
  obtain b fsp where m: "mTypeFlags h = Slice [b] fsp" and t: "fst (Type h) = drop_bit 4 b"
    using assms(1) by (rule Valid_Type_byte)
  have v: "Valid (drop_bit 4 b)" using assms(1) t by simp
  have f: "f = b AND 0xf" using assms(2) m by (simp add: Flags_def index_def len_def)
  define x :: uint64 where "x = scast (remLen h)"
  define bytes where "bytes = uvarint_bytes x"
  define rest where "rest = drop (nat (msgLen h)) (elems dst)"
  define h' where "h' = g\<lparr>dBuf := Slice (b # bytes @ rest) (spare dst),
                            mTypeFlags := Slice [b] ((bytes @ rest) @ spare dst),
                            remLen := remLen h\<rparr>"
  have ml: "msgLen h = 1 + int (length bytes)"
    unfolding bytes_def x_def using assms(5,6) by (rule msgLen_length)
  have ml5: "msgLen h \<le> 5" by (simp add: msgLen_def)
  have enc: "encode h dst = Some (h, Slice (b # bytes @ rest) (spare dst), msgLen h, None)"
    unfolding bytes_def x_def rest_def using m v assms(5,6,7) by (rule encode_stored)
  have "0 + length (uvarint_bytes x) \<le> 9" using ml ml5 by (simp add: bytes_def)
  then have "Uvarint_loop (uvarint_bytes x @ rest) 0 0 0
               = (0 OR push_bit 0 x, int (0 + length (uvarint_bytes x)))"
    by (rule Uvarint_loop_bytes)
  then have uv: "Uvarint_loop (bytes @ rest) 0 0 0 = (x, msgLen h - 1)"
    using ml by (simp add: bytes_def)
  have s0: "snd (Type g) = g"
    using assms(1,8) by (simp add: Type_snd_valid)
  have q: "\<not> (drop_bit 4 b = PUBLISH \<and> \<not> ValidQos (drop_bit 1 (b AND 0xf) AND 0x3))"
    using assms(4) t f by (auto simp: ValidQos_def)
  have d: "\<not> (drop_bit 4 b \<noteq> PUBLISH \<and> b AND 0xf \<noteq> DefaultFlags (drop_bit 4 b))"
    using assms(3) t f by auto
  have lr: "int (length (bytes @ rest)) - (msgLen h - 1) = len dst - msgLen h"
    using assms(7) ml by (simp add: len_def rest_def)
  have rl: "(ucast x :: int32) = remLen h"
    by (simp add: x_def ucast_scast_remLen)
  have rng: "\<not> maxRemainingLength < sint (remLen h)"
    using assms(6) by (simp add: maxRemainingLength_def)
  have pos: "\<not> 1 + (msgLen h - 1) < 0" by (simp add: msgLen_def)
  have t0: "\<not> fst (Type g) \<noteq> drop_bit 4 b" using assms(8) t by simp
  have dec: "decode PUBLISH DefaultFlags g (Slice (b # bytes @ rest) (spare dst))
               = Some (h', msgLen h,
                       if len dst - msgLen h < sint (remLen h) then Some TruncatedMessage else None)"
    by (simp only: decode_cons Let_def uv fst_conv snd_conv rl s0 v t0 q d rng pos lr
                   not_True_eq_False if_False h'_def)
       simp
  have "fst (Type h') = fst (Type h)" using t by (simp add: Type_stored len_def h'_def)
  moreover have "Flags h' = Flags h"
    using assms(2) f by (simp add: Flags_def index_def len_def h'_def)
  moreover have "RemainingLength h' = RemainingLength h"
    by (simp add: RemainingLength_def h'_def)
  ultimately show ?thesis using enc dec by blast
qed

theorem encode_decode_roundtrip_witness:
  "(\<exists>dst' h'. encode \<lparr>remLen = 3, mTypeFlags = Slice [0x32] [], packetID = Slice [] [],
                      dBuf = Slice [] [], dirty = True\<rparr> (Slice [9, 9, 9, 9, 9, 9] [])
               = Some (\<lparr>remLen = 3, mTypeFlags = Slice [0x32] [], packetID = Slice [] [],
                        dBuf = Slice [] [], dirty = True\<rparr>, dst', 2, None)
     \<and> decode mqtt_PUBLISH mqtt_DefaultFlags (fst (SetType mqtt_DefaultFlags fresh 3)) dst'
               = Some (h', 2, None)
     \<and> fst (Type h') = 3 \<and> Flags h' = Some 2 \<and> RemainingLength h' = 3)
   \<and> (\<exists>dst' h'. encode \<lparr>remLen = 200, mTypeFlags = Slice [0x82] [], packetID = Slice [] [],
                      dBuf = Slice [] [], dirty = True\<rparr> (Slice [9, 9, 9, 9, 9, 9] [])
               = Some (\<lparr>remLen = 200, mTypeFlags = Slice [0x82] [], packetID = Slice [] [],
                        dBuf = Slice [] [], dirty = True\<rparr>, dst', 3, None)
     \<and> decode mqtt_PUBLISH mqtt_DefaultFlags (fst (SetType mqtt_DefaultFlags fresh 8)) dst'
               = Some (h', 3, Some TruncatedMessage)
     \<and> fst (Type h') = 8 \<and> Flags h' = Some 2 \<and> RemainingLength h' = 200)"
proof -
  let ?h = "\<lparr>remLen = 3, mTypeFlags = Slice [0x32] [], packetID = Slice [] [],
             dBuf = Slice [] [], dirty = True\<rparr>"
  let ?k = "\<lparr>remLen = 200, mTypeFlags = Slice [0x82] [], packetID = Slice [] [],
             dBuf = Slice [] [], dirty = True\<rparr>"
  let ?dst = "Slice [9, 9, 9, 9, 9, 9] []"
  let ?pre = "fst (SetType mqtt_DefaultFlags fresh 3)"
  let ?pre' = "fst (SetType mqtt_DefaultFlags fresh 8)"
  have v: "Valid (fst (Type ?h))" and v': "Valid (fst (Type ?k))"
    by (simp_all add: Type_def len_def Valid_def)
  have f: "Flags ?h = Some 2" and f': "Flags ?k = Some 2"
    by (simp_all add: Flags_def index_def len_def)
  have d: "fst (Type ?h) \<noteq> mqtt_PUBLISH \<longrightarrow> 2 = mqtt_DefaultFlags (fst (Type ?h))"
    and d': "fst (Type ?k) \<noteq> mqtt_PUBLISH \<longrightarrow> 2 = mqtt_DefaultFlags (fst (Type ?k))"
    by (simp_all add: Type_def len_def mqtt_PUBLISH_def mqtt_DefaultFlags_def)
  have q: "fst (Type ?h) = mqtt_PUBLISH \<longrightarrow> drop_bit 1 (2 :: byte) AND 0x3 \<in> {0, 1, 2}"
    and q': "fst (Type ?k) = mqtt_PUBLISH \<longrightarrow> drop_bit 1 (2 :: byte) AND 0x3 \<in> {0, 1, 2}"
    by simp_all
  have r: "0 \<le> sint (remLen ?h)" "sint (remLen ?h) \<le> 268435455"
    and r': "0 \<le> sint (remLen ?k)" "sint (remLen ?k) \<le> 268435455"
    by simp_all
  have l: "msgLen ?h \<le> len ?dst" and l': "msgLen ?k \<le> len ?dst"
    by (simp_all add: msgLen_def len_def)
  have t: "fst (Type ?pre) = fst (Type ?h)" and t': "fst (Type ?pre') = fst (Type ?k)"
    by code_simp+
  have ml: "msgLen ?h = 2" and ml': "msgLen ?k = 3" by (simp_all add: msgLen_def)
  have tr: "\<not> len ?dst - 2 < sint (remLen ?h)" and tr': "len ?dst - 3 < sint (remLen ?k)"
    by (simp_all add: len_def)
  have ty: "fst (Type ?h) = 3" and ty': "fst (Type ?k) = 8" by (simp_all add: Type_def len_def)
  have rl: "RemainingLength ?h = 3" and rl': "RemainingLength ?k = 200"
    by (simp_all add: RemainingLength_def)
  have a: "\<exists>dst' h'. encode ?h ?dst = Some (?h, dst', 2, None)
     \<and> decode mqtt_PUBLISH mqtt_DefaultFlags ?pre dst' = Some (h', 2, None)
     \<and> fst (Type h') = 3 \<and> Flags h' = Some 2 \<and> RemainingLength h' = 3"
    using encode_decode_roundtrip
      [where PUBLISH = mqtt_PUBLISH and DefaultFlags = mqtt_DefaultFlags, OF v f d q r l t]
    by (simp only: ml tr if_False f ty rl)
  have b: "\<exists>dst' h'. encode ?k ?dst = Some (?k, dst', 3, None)
     \<and> decode mqtt_PUBLISH mqtt_DefaultFlags ?pre' dst' = Some (h', 3, Some TruncatedMessage)
     \<and> fst (Type h') = 8 \<and> Flags h' = Some 2 \<and> RemainingLength h' = 200"
    using encode_decode_roundtrip
      [where PUBLISH = mqtt_PUBLISH and DefaultFlags = mqtt_DefaultFlags, OF v' f' d' q' r' l' t']
    by (simp only: ml' tr' if_True f' ty' rl')
  from a b show ?thesis by (rule conjI)
qed

subsection \<open>C2: decode needs a header that already has the type\<close>

text \<open>
  Claim C2. For every source buffer whose first byte carries a valid packet type \<open>t\<close>,
  decode on a freshly constructed header returns an error (the type read before the call is
  0 and differs from \<open>t\<close>) and consumes nothing; and whenever decode succeeds on such a
  buffer, the type of the header as read before the call was \<open>t\<close>.
\<close>

theorem decode_fresh_header_fails:
  assumes "Valid (drop_bit 4 b)"
  shows "decode PUBLISH DefaultFlags fresh (Slice (b # bs) sp)
           = Some (fresh\<lparr>dBuf := Slice (b # bs) sp, mTypeFlags := Slice [b] (bs @ sp), dirty := True\<rparr>,
                   0, Some UnexpectedPacketType)
         \<and> (\<forall>h h' n. decode PUBLISH DefaultFlags h (Slice (b # bs) sp) = Some (h', n, None)
                \<longrightarrow> fst (Type h) = drop_bit 4 b)"
proof
  have t: "Type fresh = (0, fresh\<lparr>mTypeFlags := make_bytes 1, dirty := True\<rparr>)"
    by (rule Type_unstored) (simp add: fresh_def len_def)
  have "drop_bit 4 b \<noteq> 0" using assms not_Valid_0 by auto
  then show "decode PUBLISH DefaultFlags fresh (Slice (b # bs) sp)
           = Some (fresh\<lparr>dBuf := Slice (b # bs) sp, mTypeFlags := Slice [b] (bs @ sp), dirty := True\<rparr>,
                   0, Some UnexpectedPacketType)"
    using assms by (simp add: decode_cons t Let_def)
next
  show "\<forall>h h' n. decode PUBLISH DefaultFlags h (Slice (b # bs) sp) = Some (h', n, None)
                \<longrightarrow> fst (Type h) = drop_bit 4 b"
    by (auto simp: decode_cons Let_def split: if_splits)
qed

theorem decode_fresh_header_fails_witness:
  "decode mqtt_PUBLISH mqtt_DefaultFlags fresh (Slice [0xC0, 0x00] [])
     = Some (fresh\<lparr>dBuf := Slice [0xC0, 0x00] [], mTypeFlags := Slice [0xC0] [0x00], dirty := True\<rparr>,
             0, Some UnexpectedPacketType)
   \<and> decode mqtt_PUBLISH mqtt_DefaultFlags (fst (SetType mqtt_DefaultFlags fresh 12))
         (Slice [0xC0, 0x00] [])
     = Some (\<lparr>remLen = 0, mTypeFlags = Slice [0xC0] [0x00], packetID = Slice [] [],
              dBuf = Slice [0xC0, 0x00] [], dirty = True\<rparr>, 2, None)
   \<and> fst (Type (fst (SetType mqtt_DefaultFlags fresh 12))) = drop_bit 4 0xC0"
proof -
  have v: "Valid (drop_bit 4 (0xC0 :: byte))" by (simp add: Valid_def)
  have d: "decode mqtt_PUBLISH mqtt_DefaultFlags (fst (SetType mqtt_DefaultFlags fresh 12))
         (Slice [0xC0, 0x00] [])
     = Some (\<lparr>remLen = 0, mTypeFlags = Slice [0xC0] [0x00], packetID = Slice [] [],
              dBuf = Slice [0xC0, 0x00] [], dirty = True\<rparr>, 2, None)"
    by code_simp
  show ?thesis
    using decode_fresh_header_fails [OF v, of mqtt_PUBLISH mqtt_DefaultFlags "[0x00]" "[]"] d
    by simp
qed

subsection \<open>C3: malformed and oversized remaining lengths\<close>

text \<open>
  Claim C3 says that decode returns the remaining-length error when the varint decodes to
  more than 268435455 or is malformed. The code converts the 64-bit value to \<open>int32\<close>
  before it compares, tests the unsigned value against 0, and never looks at the count
  \<open>Uvarint\<close> returns. On a header set to type 12 decode reports success for the varint of
  2147483648 (stored as -2147483648), for a varint with no last byte, and for a five-byte
  varint of 0.
\<close>

theorem decode_accepts_malformed_length:
  "decode mqtt_PUBLISH mqtt_DefaultFlags (fst (SetType mqtt_DefaultFlags fresh 12))
      (Slice [0xC0, 0x80, 0x80, 0x80, 0x80, 0x08] [])
     = Some (\<lparr>remLen = - 2147483648, mTypeFlags = Slice [0xC0] [0x80, 0x80, 0x80, 0x80, 0x08],
              packetID = Slice [] [], dBuf = Slice [0xC0, 0x80, 0x80, 0x80, 0x80, 0x08] [],
              dirty = True\<rparr>, 6, None)
   \<and> decode mqtt_PUBLISH mqtt_DefaultFlags (fst (SetType mqtt_DefaultFlags fresh 12))
      (Slice [0xC0, 0x80] [])
     = Some (\<lparr>remLen = 0, mTypeFlags = Slice [0xC0] [0x80], packetID = Slice [] [],
              dBuf = Slice [0xC0, 0x80] [], dirty = True\<rparr>, 1, None)
   \<and> decode mqtt_PUBLISH mqtt_DefaultFlags (fst (SetType mqtt_DefaultFlags fresh 12))
      (Slice [0xC0, 0x80, 0x80, 0x80, 0x80, 0x00] [])
     = Some (\<lparr>remLen = 0, mTypeFlags = Slice [0xC0] [0x80, 0x80, 0x80, 0x80, 0x00],
              packetID = Slice [] [], dBuf = Slice [0xC0, 0x80, 0x80, 0x80, 0x80, 0x00] [],
              dirty = True\<rparr>, 6, None)"
  by code_simp

subsection \<open>C4: decode and the dirty flag\<close>

text \<open>
  Claim C4 says that the dirty flag is false after every successful decode. decode never
  writes the flag to false: after \<open>SetType(12)\<close> on a fresh header, which sets the flag,
  a successful decode leaves it set.
\<close>

theorem decode_dirty_counterexample:
  "decode mqtt_PUBLISH mqtt_DefaultFlags (fst (SetType mqtt_DefaultFlags fresh 12))
         (Slice [0xC0, 0x00] [])
     = Some (\<lparr>remLen = 0, mTypeFlags = Slice [0xC0] [0x00], packetID = Slice [] [],
              dBuf = Slice [0xC0, 0x00] [], dirty = True\<rparr>, 2, None)"
  by code_simp

text \<open>
  Claim C4, amended. A successful decode leaves the dirty flag as it was before the call.
\<close>

theorem decode_keeps_dirty:
  assumes "decode PUBLISH DefaultFlags h src = Some (h', n, None)"
  shows "dirty h' = dirty h"
proof -
  obtain b bs where e: "elems src = b # bs"
    using assms by (rule decode_success_nonempty)
  then have src: "src = Slice (b # bs) (spare src)" by (cases src) simp
  have ok: "decode PUBLISH DefaultFlags h (Slice (b # bs) (spare src)) = Some (h', n, None)"
    using assms src by simp
  then have v: "Valid (fst (Type h))"
    by (auto simp: decode_cons Let_def split: if_splits)
  then have "Type h = (drop_bit 4 (elems (mTypeFlags h) ! 0), h)"
    by (intro Type_stored Valid_Type_stored)
  then have "snd (Type h) = h" by simp
  then show ?thesis using ok
    by (auto simp: decode_cons Let_def split: if_splits)
qed

theorem decode_keeps_dirty_witness:
  "decode mqtt_PUBLISH mqtt_DefaultFlags (fst (SetType mqtt_DefaultFlags fresh 12))
      (Slice [0xC0, 0x01, 0xAA] [])
     = Some (\<lparr>remLen = 1, mTypeFlags = Slice [0xC0] [0x01, 0xAA], packetID = Slice [] [],
              dBuf = Slice [0xC0, 0x01, 0xAA] [], dirty = True\<rparr>, 2, None)
   \<and> dirty \<lparr>remLen = 1, mTypeFlags = Slice [0xC0] [0x01, 0xAA], packetID = Slice [] [],
              dBuf = Slice [0xC0, 0x01, 0xAA] [], dirty = True\<rparr>
     = dirty (fst (SetType mqtt_DefaultFlags fresh 12))"
proof -
  have d: "decode mqtt_PUBLISH mqtt_DefaultFlags (fst (SetType mqtt_DefaultFlags fresh 12))
      (Slice [0xC0, 0x01, 0xAA] [])
     = Some (\<lparr>remLen = 1, mTypeFlags = Slice [0xC0] [0x01, 0xAA], packetID = Slice [] [],
              dBuf = Slice [0xC0, 0x01, 0xAA] [], dirty = True\<rparr>, 2, None)"
    by code_simp
  from decode_keeps_dirty [OF d] d show ?thesis by simp
qed

subsection \<open>C5: panics\<close>

text \<open>
  Claim C5 says that decode and the flags accessor never panic. decode slices
  \<open>src[0:1]\<close> with no check, which panics on a buffer with no capacity, whatever the
  header; \<open>Flags()\<close> indexes the stored byte with no check, which panics on a fresh header.
\<close>

theorem decode_empty_and_Flags_panic:
  "decode PUBLISH DefaultFlags h (Slice [] []) = None \<and> Flags fresh = None"
  by (simp add: decode_no_capacity Flags_def fresh_def index_def len_def)

subsection \<open>C6: decode, then encode\<close>

text \<open>
  Claim C6 says that encode after a successful decode writes back the header bytes of the
  source, also when the source used a non-minimal varint. encode always writes the minimal
  varint of the stored remaining length: the three header bytes C0 80 00 decode to the
  remaining length 0 with 3 bytes consumed, and encode writes the two bytes C0 00.
\<close>

theorem decode_encode_nonminimal_counterexample:
  "decode mqtt_PUBLISH mqtt_DefaultFlags (fst (SetType mqtt_DefaultFlags fresh 12))
       (Slice [0xC0, 0x80, 0x00] [])
     = Some (\<lparr>remLen = 0, mTypeFlags = Slice [0xC0] [0x80, 0x00], packetID = Slice [] [],
              dBuf = Slice [0xC0, 0x80, 0x00] [], dirty = True\<rparr>, 3, None)
   \<and> encode \<lparr>remLen = 0, mTypeFlags = Slice [0xC0] [0x80, 0x00], packetID = Slice [] [],
              dBuf = Slice [0xC0, 0x80, 0x00] [], dirty = True\<rparr> (Slice [9, 9, 9, 9, 9, 9] [])
     = Some (\<lparr>remLen = 0, mTypeFlags = Slice [0xC0] [0x80, 0x00], packetID = Slice [] [],
              dBuf = Slice [0xC0, 0x80, 0x00] [], dirty = True\<rparr>,
             Slice [0xC0, 0x00, 9, 9, 9, 9] [], 2, None)"
  by code_simp

text \<open>
  Claim C6, amended. For every source buffer on which decode succeeds and consumes \<open>n\<close>
  header bytes, where \<open>n\<close> is the header length \<open>msgLen\<close> of the decoded header (the
  remaining-length field of the source has the minimal length for its value), encode into
  a destination of at least \<open>n\<close> bytes, with no mutation in between, returns \<open>n\<close>, writes
  bytes identical to bytes \<open>0..n-1\<close> of the source and leaves the rest of the destination
  as it was.
\<close>

theorem decode_encode_minimal:
  assumes "decode PUBLISH DefaultFlags h src = Some (h', n, None)"
    and "n = msgLen h'"
    and "n \<le> len dst"
  shows "\<exists>dst'. encode h' dst = Some (h', dst', n, None)
           \<and> take (nat n) (elems dst') = take (nat n) (elems src)
           \<and> drop (nat n) (elems dst') = drop (nat n) (elems dst)"
proof -
  obtain b bs where e: "elems src = b # bs"
    using assms(1) by (rule decode_success_nonempty)
  then have src: "src = Slice (b # bs) (spare src)" by (cases src) simp
  define v where "v = fst (Uvarint_loop bs 0 0 0)"
  define m where "m = snd (Uvarint_loop bs 0 0 0)"
  have ok: "decode PUBLISH DefaultFlags h (Slice (b # bs) (spare src)) = Some (h', n, None)"
    using assms(1) src by simp
  have valid: "Valid (drop_bit 4 b)" using ok by (rule decode_success_cons)
  have h': "h' = h\<lparr>dBuf := Slice (b # bs) (spare src), mTypeFlags := Slice [b] (bs @ spare src),
                    remLen := ucast v\<rparr>"
    unfolding v_def using ok by (rule decode_success_cons)
  have n: "n = 1 + m" unfolding m_def using ok by (rule decode_success_cons)
  have mf: "mTypeFlags h' = Slice [b] (bs @ spare src)" and rl: "remLen h' = ucast v"
    using h' by simp_all
  have "2 \<le> msgLen h'" "msgLen h' \<le> 5" by (simp_all add: msgLen_def)
  then have m14: "1 \<le> m" "m \<le> 4" using n assms(2) by simp_all
  define k where "k = nat m"
  have k: "0 < k" "k \<le> 4" "m = int k" using m14 by (simp_all add: k_def)
  have uv: "Uvarint_loop bs 0 0 0 = (v, int 0 + int k)"
    using k(3) by (simp add: v_def m_def prod_eq_iff)
  have "0 + k \<le> 9" using k(2) by simp
  from Uvarint_loop_canonical [OF uv k(1) this]
  obtain w where w: "v = 0 OR push_bit 0 w" "unat w < 2 ^ (7 * k)"
      "k \<le> length (uvarint_bytes w) \<longrightarrow> take k bs = uvarint_bytes w"
    by blast
  have wv: "w = v" using w(1) by simp
  have "(2::nat) ^ (7 * k) \<le> 2 ^ 28" using k(2) by (intro power_increasing) simp_all
  then have small: "unat v < 2 ^ 28" using w(2) wv by simp
  have sc: "(scast (remLen h') :: uint64) = v" and si: "sint (remLen h') = int (unat v)"
    using small_value_casts [OF small] rl by simp_all
  have "int (unat v) < 2 ^ 28"
    using small by (simp only: of_nat_less_numeral_power_cancel_iff)
  then have r0: "0 \<le> sint (remLen h')" and r1: "sint (remLen h') \<le> 268435455"
    using si by simp_all
  have "msgLen h' = 1 + int (length (uvarint_bytes (scast (remLen h'))))"
    using r0 r1 by (rule msgLen_length)
  then have len: "length (uvarint_bytes v) = k"
    using sc n assms(2) k(3) by simp
  then have tk: "take k bs = uvarint_bytes v" using w(3) wv by simp
  have ml: "msgLen h' \<le> len dst" using assms(2,3) by simp
  have enc: "encode h' dst =
      Some (h', Slice (b # uvarint_bytes v @ drop (nat n) (elems dst)) (spare dst), n, None)"
    using encode_stored [OF mf valid r0 r1 ml] sc assms(2) by simp
  have nn: "nat n = Suc k" using n k(3) by simp
  have "take (nat n) (b # uvarint_bytes v @ drop (nat n) (elems dst)) = take (nat n) (elems src)"
    using e tk len nn by simp
  moreover have "drop (nat n) (b # uvarint_bytes v @ drop (nat n) (elems dst))
                   = drop (nat n) (elems dst)"
    using len nn by simp
  ultimately show ?thesis using enc by simp
qed

theorem decode_encode_minimal_witness:
  "decode mqtt_PUBLISH mqtt_DefaultFlags (fst (SetType mqtt_DefaultFlags fresh 3))
       (Slice ([0x32, 0x80, 0x01] @ replicate 128 0xAA) [])
     = Some (\<lparr>remLen = 128, mTypeFlags = Slice [0x32] ([0x80, 0x01] @ replicate 128 0xAA),
              packetID = Slice [] [], dBuf = Slice ([0x32, 0x80, 0x01] @ replicate 128 0xAA) [],
              dirty = True\<rparr>, 3, None)
   \<and> (\<exists>dst'. encode \<lparr>remLen = 128, mTypeFlags = Slice [0x32] ([0x80, 0x01] @ replicate 128 0xAA),
              packetID = Slice [] [], dBuf = Slice ([0x32, 0x80, 0x01] @ replicate 128 0xAA) [],
              dirty = True\<rparr> (Slice [9, 9, 9, 9, 9, 9] [])
          = Some (\<lparr>remLen = 128, mTypeFlags = Slice [0x32] ([0x80, 0x01] @ replicate 128 0xAA),
              packetID = Slice [] [], dBuf = Slice ([0x32, 0x80, 0x01] @ replicate 128 0xAA) [],
              dirty = True\<rparr>, dst', 3, None)
        \<and> take 3 (elems dst') = [0x32, 0x80, 0x01]
        \<and> drop 3 (elems dst') = [9, 9, 9])"
proof -
  let ?src = "Slice ([0x32, 0x80, 0x01] @ replicate 128 0xAA) []"
  let ?dec = "\<lparr>remLen = 128, mTypeFlags = Slice [0x32] ([0x80, 0x01] @ replicate 128 0xAA),
              packetID = Slice [] [], dBuf = ?src, dirty = True\<rparr>"
  let ?dst = "Slice [9, 9, 9, 9, 9, 9] []"
  have d: "decode mqtt_PUBLISH mqtt_DefaultFlags (fst (SetType mqtt_DefaultFlags fresh 3)) ?src
             = Some (?dec, 3, None)"
    by code_simp
  have m: "3 = msgLen ?dec" by (simp add: msgLen_def)
  have l: "3 \<le> len ?dst" by (simp add: len_def)
  have n: "nat 3 = 3" by simp
  have t: "take 3 (elems ?src) = [0x32, 0x80, 0x01]" by simp
  have r: "drop 3 (elems ?dst) = [9, 9, 9]" by simp
  show ?thesis
    using decode_encode_minimal [OF d m l] d
    by (simp only: n t r simp_thms)
qed

subsection \<open>C7: the length of the remaining-length field\<close>




subsection \<open>C8: validation of the flags\<close>

text \<open>
  Claim C8 says that a buffer whose first byte has a valid type other than PUBLISH and flags
  that differ from the default fails with the invalid-flags error. decode compares the type
  the receiving header had before the call with the type in the buffer first: the byte 80
  (SUBSCRIBE with flags 0, where the default is 2) decoded into a freshly constructed
  header returns the type-mismatch error, not the invalid-flags error.
\<close>

theorem flags_fresh_header_counterexample:
  "decode mqtt_PUBLISH mqtt_DefaultFlags fresh (Slice [0x80, 0x00] [])
     = Some (\<lparr>remLen = 0, mTypeFlags = Slice [0x80] [0x00], packetID = Slice [] [],
              dBuf = Slice [0x80, 0x00] [], dirty = True\<rparr>, 0, Some UnexpectedPacketType)
   \<and> drop_bit 4 (0x80 :: byte) \<noteq> mqtt_PUBLISH
   \<and> (0x80 :: byte) AND 0xf \<noteq> mqtt_DefaultFlags (drop_bit 4 0x80)
   \<and> Valid (drop_bit 4 (0x80 :: byte))"
  by code_simp

text \<open>
  Claim C8, amended. For every source buffer whose first byte carries a valid packet type,
  decoded into a header whose type, as read before the call, already equals that type: if
  the type is not PUBLISH and the flags nibble differs from the type's default flags,
  decode fails with the invalid-flags error; if the type is PUBLISH and bits 2-1 of the
  flags nibble are 3, decode fails with the invalid-QoS error; if the type is PUBLISH and
  these bits are 0, 1 or 2, decode fails with neither.
\<close>

theorem decode_flags_validation:
  assumes "Valid (drop_bit 4 b)" and "fst (Type h) = drop_bit 4 b"
  shows "(drop_bit 4 b \<noteq> PUBLISH \<and> b AND 0xf \<noteq> DefaultFlags (drop_bit 4 b) \<longrightarrow>
            decode PUBLISH DefaultFlags h (Slice (b # bs) sp)
              = Some (h\<lparr>dBuf := Slice (b # bs) sp, mTypeFlags := Slice [b] (bs @ sp)\<rparr>,
                      0, Some InvalidFlags))
       \<and> (drop_bit 4 b = PUBLISH \<and> drop_bit 1 (b AND 0xf) AND 0x3 = 3 \<longrightarrow>
            decode PUBLISH DefaultFlags h (Slice (b # bs) sp)
              = Some (h\<lparr>dBuf := Slice (b # bs) sp, mTypeFlags := Slice [b] (bs @ sp)\<rparr>,
                      0, Some InvalidQoS))
       \<and> (drop_bit 4 b = PUBLISH \<and> drop_bit 1 (b AND 0xf) AND 0x3 \<in> {0, 1, 2} \<longrightarrow>
            (\<forall>h' n. decode PUBLISH DefaultFlags h (Slice (b # bs) sp) \<noteq> Some (h', n, Some InvalidFlags)
                  \<and> decode PUBLISH DefaultFlags h (Slice (b # bs) sp) \<noteq> Some (h', n, Some InvalidQoS)))"
proof -
  have s: "snd (Type h) = h"
    using assms by (simp add: Type_snd_valid)
  have q3: "\<not> ValidQos 3" by (simp add: ValidQos_def)
  have q: "x \<in> {0, 1, 2} \<Longrightarrow> ValidQos x" for x by (auto simp: ValidQos_def)
  show ?thesis
  proof (intro conjI impI allI)
    assume "drop_bit 4 b \<noteq> PUBLISH \<and> b AND 0xf \<noteq> DefaultFlags (drop_bit 4 b)"
    then show "decode PUBLISH DefaultFlags h (Slice (b # bs) sp)
              = Some (h\<lparr>dBuf := Slice (b # bs) sp, mTypeFlags := Slice [b] (bs @ sp)\<rparr>,
                      0, Some InvalidFlags)"
      using assms s by (simp add: decode_cons Let_def)
  next
    assume "drop_bit 4 b = PUBLISH \<and> drop_bit 1 (b AND 0xf) AND 0x3 = 3"
    then show "decode PUBLISH DefaultFlags h (Slice (b # bs) sp)
              = Some (h\<lparr>dBuf := Slice (b # bs) sp, mTypeFlags := Slice [b] (bs @ sp)\<rparr>,
                      0, Some InvalidQoS)"
      using assms s q3 by (simp only: decode_cons Let_def) simp
  next
    fix h' n
    assume a: "drop_bit 4 b = PUBLISH \<and> drop_bit 1 (b AND 0xf) AND 0x3 \<in> {0, 1, 2}"
    then have v: "ValidQos (drop_bit 1 (b AND 0xf) AND 0x3)" by (intro q) simp
    show "decode PUBLISH DefaultFlags h (Slice (b # bs) sp) \<noteq> Some (h', n, Some InvalidFlags)"
      using assms a v by (simp only: decode_cons Let_def) (simp split: if_splits)
    show "decode PUBLISH DefaultFlags h (Slice (b # bs) sp) \<noteq> Some (h', n, Some InvalidQoS)"
      using assms a v by (simp only: decode_cons Let_def) (simp split: if_splits)
  qed
qed

theorem decode_flags_validation_witness:
  "decode mqtt_PUBLISH mqtt_DefaultFlags (fst (SetType mqtt_DefaultFlags fresh 8))
       (Slice [0x80, 0x00] [])
     = Some ((fst (SetType mqtt_DefaultFlags fresh 8))
               \<lparr>dBuf := Slice [0x80, 0x00] [], mTypeFlags := Slice [0x80] [0x00]\<rparr>,
             0, Some InvalidFlags)
   \<and> decode mqtt_PUBLISH mqtt_DefaultFlags (fst (SetType mqtt_DefaultFlags fresh 3))
       (Slice [0x36, 0x00] [])
     = Some ((fst (SetType mqtt_DefaultFlags fresh 3))
               \<lparr>dBuf := Slice [0x36, 0x00] [], mTypeFlags := Slice [0x36] [0x00]\<rparr>,
             0, Some InvalidQoS)
   \<and> (\<forall>h' n. decode mqtt_PUBLISH mqtt_DefaultFlags (fst (SetType mqtt_DefaultFlags fresh 3))
                 (Slice [0x32, 0x00] []) \<noteq> Some (h', n, Some InvalidFlags)
            \<and> decode mqtt_PUBLISH mqtt_DefaultFlags (fst (SetType mqtt_DefaultFlags fresh 3))
                 (Slice [0x32, 0x00] []) \<noteq> Some (h', n, Some InvalidQoS))"
proof -
  have v8: "Valid (drop_bit 4 (0x80 :: byte))" and v3: "Valid (drop_bit 4 (0x36 :: byte))"
    and v3': "Valid (drop_bit 4 (0x32 :: byte))"
    by (simp_all add: Valid_def)
  have t8: "fst (Type (fst (SetType mqtt_DefaultFlags fresh 8))) = drop_bit 4 (0x80 :: byte)"
    by code_simp
  have t3: "fst (Type (fst (SetType mqtt_DefaultFlags fresh 3))) = drop_bit 4 (0x36 :: byte)"
    by code_simp
  have t3': "fst (Type (fst (SetType mqtt_DefaultFlags fresh 3))) = drop_bit 4 (0x32 :: byte)"
    by code_simp
  have f8: "drop_bit 4 (0x80 :: byte) \<noteq> mqtt_PUBLISH
            \<and> (0x80 :: byte) AND 0xf \<noteq> mqtt_DefaultFlags (drop_bit 4 0x80)"
    by (simp add: mqtt_PUBLISH_def mqtt_DefaultFlags_def)
  have q3: "drop_bit 4 (0x36 :: byte) = mqtt_PUBLISH \<and> drop_bit 1 ((0x36 :: byte) AND 0xf) AND 0x3 = 3"
    by (simp add: mqtt_PUBLISH_def)
  have q1: "drop_bit 4 (0x32 :: byte) = mqtt_PUBLISH
            \<and> drop_bit 1 ((0x32 :: byte) AND 0xf) AND 0x3 \<in> {0, 1, 2}"
    by (simp add: mqtt_PUBLISH_def)
  have c1: "decode mqtt_PUBLISH mqtt_DefaultFlags (fst (SetType mqtt_DefaultFlags fresh 8))
       (Slice [0x80, 0x00] [])
     = Some ((fst (SetType mqtt_DefaultFlags fresh 8))
               \<lparr>dBuf := Slice [0x80, 0x00] [], mTypeFlags := Slice [0x80] [0x00]\<rparr>,
             0, Some InvalidFlags)"
    using decode_flags_validation [OF v8 t8, of mqtt_PUBLISH mqtt_DefaultFlags "[0x00]" "[]"] f8
    by (simp only: append_Nil2 simp_thms)
  have c2: "decode mqtt_PUBLISH mqtt_DefaultFlags (fst (SetType mqtt_DefaultFlags fresh 3))
       (Slice [0x36, 0x00] [])
     = Some ((fst (SetType mqtt_DefaultFlags fresh 3))
               \<lparr>dBuf := Slice [0x36, 0x00] [], mTypeFlags := Slice [0x36] [0x00]\<rparr>,
             0, Some InvalidQoS)"
    using decode_flags_validation [OF v3 t3, of mqtt_PUBLISH mqtt_DefaultFlags "[0x00]" "[]"] q3
    by (simp only: append_Nil2 simp_thms)
  have c3: "\<forall>h' n. decode mqtt_PUBLISH mqtt_DefaultFlags (fst (SetType mqtt_DefaultFlags fresh 3))
                 (Slice [0x32, 0x00] []) \<noteq> Some (h', n, Some InvalidFlags)
            \<and> decode mqtt_PUBLISH mqtt_DefaultFlags (fst (SetType mqtt_DefaultFlags fresh 3))
                 (Slice [0x32, 0x00] []) \<noteq> Some (h', n, Some InvalidQoS)"
    using decode_flags_validation [OF v3' t3', of mqtt_PUBLISH mqtt_DefaultFlags "[0x00]" "[]"] q1
    by blast
  show ?thesis using c1 c2 c3 by (intro conjI)
qed

subsection \<open>C9: the truncation check\<close>

text \<open>
  Claim C9 says that a buffer that passes the type, flags and range checks either fails as
  truncated or succeeds. When \<open>Uvarint\<close> reports an overflow its count is negative and the
  value 0: the range check passes, and \<open>src[total:]\<close> panics on the negative bound.
\<close>

theorem decode_overflow_varint_panics:
  "decode mqtt_PUBLISH mqtt_DefaultFlags (fst (SetType mqtt_DefaultFlags fresh 12))
      (Slice [0xC0, 0x80, 0x80, 0x80, 0x80, 0x80, 0x80, 0x80, 0x80, 0x80, 0x02] []) = None"
  by code_simp

text \<open>
  When the count of \<open>Uvarint\<close> is not negative, the truncation check does what is
  expected of it: a buffer that passes the type, flags and range checks fails as truncated
  when the remaining length exceeds the bytes after the header, and otherwise succeeds,
  with 1 plus the count consumed in both cases.
\<close>

lemma decode_truncation_check:
  assumes "Valid (drop_bit 4 b)" and "fst (Type h) = drop_bit 4 b"
    and "\<not> (drop_bit 4 b \<noteq> PUBLISH \<and> b AND 0xf \<noteq> DefaultFlags (drop_bit 4 b))"
    and "\<not> (drop_bit 4 b = PUBLISH \<and> \<not> ValidQos (drop_bit 1 (b AND 0xf) AND 0x3))"
    and "Uvarint (Slice bs sp) = (v, m)"
    and "\<not> maxRemainingLength < sint (ucast v :: int32)"
    and "0 \<le> m"
  shows "decode PUBLISH DefaultFlags h (Slice (b # bs) sp)
           = Some (h\<lparr>dBuf := Slice (b # bs) sp, mTypeFlags := Slice [b] (bs @ sp),
                     remLen := ucast v\<rparr>,
                   1 + m,
                   if int (length bs) - m < sint (ucast v :: int32)
                   then Some TruncatedMessage else None)"
proof -
  have s: "snd (Type h) = h" using assms(1,2) by (simp add: Type_snd_valid)
  have u: "fst (Uvarint_loop bs 0 0 0) = v" "snd (Uvarint_loop bs 0 0 0) = m"
    using assms(5) by (simp_all add: Uvarint_def)
  have t: "\<not> fst (Type h) \<noteq> drop_bit 4 b" using assms(2) by simp
  have p: "\<not> 1 + m < 0" using assms(7) by simp
  show ?thesis
    by (simp only: decode_cons Let_def u s assms(1,3,4,6) t p not_True_eq_False if_False) simp
qed

subsection \<open>C10: SetRemainingLength\<close>

text \<open>
  Claim C10. \<open>SetRemainingLength(n)\<close> fails with the remaining-length error exactly when
  \<open>n < 0\<close> or \<open>n > 268435455\<close>, and then leaves the header as it was; otherwise it succeeds,
  stores \<open>n\<close>, sets the dirty flag and leaves the other fields as they were.
\<close>

theorem SetRemainingLength_spec:
  "(snd (SetRemainingLength h n) = Some RemainingLengthOutOfRange \<longleftrightarrow> sint n < 0 \<or> 268435455 < sint n)
   \<and> (snd (SetRemainingLength h n) = None \<longleftrightarrow> 0 \<le> sint n \<and> sint n \<le> 268435455)
   \<and> (snd (SetRemainingLength h n) \<noteq> None \<longrightarrow> fst (SetRemainingLength h n) = h)
   \<and> (snd (SetRemainingLength h n) = None \<longrightarrow>
        remLen (fst (SetRemainingLength h n)) = n \<and> dirty (fst (SetRemainingLength h n))
        \<and> mTypeFlags (fst (SetRemainingLength h n)) = mTypeFlags h
        \<and> packetID (fst (SetRemainingLength h n)) = packetID h
        \<and> dBuf (fst (SetRemainingLength h n)) = dBuf h)"
  by (auto simp: SetRemainingLength_def maxRemainingLength_def)

theorem SetRemainingLength_spec_witness:
  "snd (SetRemainingLength fresh 268435456) \<noteq> None
   \<and> fst (SetRemainingLength fresh 268435456) = fresh
   \<and> snd (SetRemainingLength fresh 268435455) = None
   \<and> remLen (fst (SetRemainingLength fresh 268435455)) = 268435455
   \<and> dirty (fst (SetRemainingLength fresh 268435455))
   \<and> mTypeFlags (fst (SetRemainingLength fresh 268435455)) = mTypeFlags fresh
   \<and> packetID (fst (SetRemainingLength fresh 268435455)) = packetID fresh"
proof -
  have a: "snd (SetRemainingLength fresh 268435456) \<noteq> None"
    by (simp add: SetRemainingLength_def maxRemainingLength_def)
  have b: "snd (SetRemainingLength fresh 268435455) = None"
    by (simp add: SetRemainingLength_def maxRemainingLength_def)
  show ?thesis
    using SetRemainingLength_spec [of fresh 268435456] SetRemainingLength_spec [of fresh 268435455]
      a b
    by simp
qed

end
